theory Spec2Isabelle
  imports Complex_Main "HOL-Library.Word"
begin

section \<open>Data model of \<^verbatim>\<open>histo::Histo\<close> (include/histo.hpp)\<close>

text \<open>
  The precision type \<^verbatim>\<open>PRECI\<close> (default \<^verbatim>\<open>double\<close>) is modelled by \<^typ>\<open>real\<close>:
  arithmetic is exact, rounding is not part of the model. Wherever the source would leave
  the finite numbers (a division by zero giving an infinity or a NaN) the model says so
  with the fault \<open>NonFinite\<close> instead of computing with HOL's \<open>x / 0 = 0\<close>.
  The count type \<^verbatim>\<open>PRECI_INTEGER\<close> (default \<^verbatim>\<open>unsigned long int\<close>) is a 64-bit word.
  Sizes and indices (\<^verbatim>\<open>unsigned long int\<close>, bounded by the size of a vector) are
  natural numbers.
\<close>

type_synonym PRECI = real
type_synonym PRECI_INTEGER = "64 word"
type_synonym BreaksType = "PRECI list"
type_synonym RangeType = "PRECI \<times> PRECI"

text \<open>The throw sites of \<^verbatim>\<open>histo_error\<close>, one constructor per message.\<close>

datatype histo_error =
    IndexFromValue_out_of_bonds
  | Increase_exceeded
  | Decrease_negative
  | SetCount_out_of_bounds
  | breaks_not_monotonic
  | breaks_not_equidistant
  | no_valid_method

text \<open>
  What ends an operation early: a thrown \<^verbatim>\<open>histo_error\<close>, or behaviour the source does
  not define or that leaves the model: \<^verbatim>\<open>operator[]\<close> of a vector beyond its size
  (\<open>OutOfRangeAccess\<close>), a division by zero (\<open>NonFinite\<close>), the conversion of a negative
  value to an unsigned integer (\<open>BadConversion\<close>).
\<close>

datatype fault =
    Thrown histo_error
  | OutOfRangeAccess
  | NonFinite
  | BadConversion

text \<open>The struct, with the count type as a parameter (\<^verbatim>\<open>Histo<PRECI, PRECI_INTEGER>\<close>).\<close>

record 'c Histo =
  range_lu :: RangeType
  breaks :: BreaksType
  bins :: nat
  counts :: "'c list"
  name :: string

text \<open>\<^verbatim>\<open>Histo() = default\<close>: value-initialised pair, empty vectors, \<^verbatim>\<open>bins{0}\<close>, empty name.\<close>

definition Histo_default :: "'c Histo" where
  "Histo_default = \<lparr>range_lu = (0, 0), breaks = [], bins = 0, counts = [], name = []\<rparr>"

subsection \<open>\<^verbatim>\<open>isequalthan\<close>\<close>

text \<open>\<^verbatim>\<open>std::numeric_limits<double>::epsilon()\<close>.\<close>

definition epsilon :: real where
  "epsilon = 1 / 2 ^ 52"

definition isequalthan :: "nat \<Rightarrow> PRECI \<Rightarrow> PRECI \<Rightarrow> bool" where
  "isequalthan N v1 v2 \<longleftrightarrow> \<bar>v1 - v2\<bar> \<le> real N * epsilon"

subsection \<open>\<^verbatim>\<open>IndexFromValue\<close>\<close>

text \<open>The \<^verbatim>\<open>while (hi - lo >= 2)\<close> loop of the binary search.\<close>

function IndexFromValue_loop :: "BreaksType \<Rightarrow> PRECI \<Rightarrow> nat \<Rightarrow> nat \<Rightarrow> nat" where
  "IndexFromValue_loop bs v lo hi =
     (if hi - lo \<ge> 2
      then (if v \<ge> bs ! ((hi + lo) div 2)
            then IndexFromValue_loop bs v ((hi + lo) div 2) hi
            else IndexFromValue_loop bs v lo ((hi + lo) div 2))
      else lo)"
  by pat_completeness auto
termination
  by (relation "measure (\<lambda>(bs, v, lo, hi). hi - lo)") auto

declare IndexFromValue_loop.simps [simp del]

text \<open>
  \<^verbatim>\<open>breaks[lo]\<close> is read first and \<^verbatim>\<open>breaks[hi]\<close> only when the first comparison holds
  (\<^verbatim>\<open>&&\<close>); both reads are guarded here, since \<^verbatim>\<open>bins\<close> is a public field.
\<close>

definition IndexFromValue :: "'c Histo \<Rightarrow> PRECI \<Rightarrow> fault + nat" where
  "IndexFromValue h v =
     (if breaks h = [] then Inl OutOfRangeAccess
      else if v \<ge> breaks h ! 0
      then (if bins h \<ge> length (breaks h) then Inl OutOfRangeAccess
            else if v < breaks h ! bins h \<or> isequalthan 1 v (breaks h ! bins h)
            then Inr (IndexFromValue_loop (breaks h) v 0 (bins h))
            else Inl (Thrown IndexFromValue_out_of_bonds))
      else Inl (Thrown IndexFromValue_out_of_bonds))"

text \<open>\<^verbatim>\<open>CheckIfMonotonicallyIncreasing\<close>: the loop over consecutive pairs.\<close>

fun monotone_from :: "PRECI \<Rightarrow> PRECI list \<Rightarrow> bool" where
  "monotone_from prev_value [] = True"
| "monotone_from prev_value (x # xs) = (if x \<le> prev_value then False else monotone_from x xs)"

definition CheckIfMonotonicallyIncreasing :: "BreaksType \<Rightarrow> fault + bool" where
  "CheckIfMonotonicallyIncreasing input_breaks =
     (case input_breaks of [] \<Rightarrow> Inl OutOfRangeAccess
      | b # rest \<Rightarrow> Inr (monotone_from b rest))"

subsection \<open>Count manipulation\<close>

text \<open>\<^verbatim>\<open>ResetCounts\<close>: \<^verbatim>\<open>counts.resize(bins)\<close>, then every count set to zero.\<close>

definition ResetCounts :: "PRECI_INTEGER Histo \<Rightarrow> PRECI_INTEGER Histo" where
  "ResetCounts h = h\<lparr>counts := replicate (bins h) 0\<rparr>"

text \<open>
  The mutators work on the object in place, so a failure leaves the object as it is at
  that moment: the result of a failed call is the fault together with that state.
\<close>

type_synonym 'h mutated = "fault \<times> 'h + 'h"

text \<open>
  \<^verbatim>\<open>FillCounts\<close>: \<^verbatim>\<open>for (auto &v : data) counts[IndexFromValue(v)]++;\<close> (the increment
  of an unsigned integer wraps).
\<close>

fun FillCounts :: "PRECI_INTEGER Histo \<Rightarrow> PRECI list \<Rightarrow> PRECI_INTEGER Histo mutated" where
  "FillCounts h [] = Inr h"
| "FillCounts h (v # data) =
     (case IndexFromValue h v of
        Inl e \<Rightarrow> Inl (e, h)
      | Inr i \<Rightarrow>
          if i < length (counts h)
          then FillCounts (h\<lparr>counts := (counts h)[i := counts h ! i + 1]\<rparr>) data
          else Inl (OutOfRangeAccess, h))"

text \<open>\<^verbatim>\<open>Increase\<close>: the count is read before anything is checked about the index.\<close>

definition Increase :: "PRECI_INTEGER Histo \<Rightarrow> nat \<Rightarrow> PRECI_INTEGER Histo mutated" where
  "Increase h index =
     (if index \<ge> length (counts h) then Inl (OutOfRangeAccess, h)
      else if counts h ! index = - 1 then Inl (Thrown Increase_exceeded, h)
      else Inr (h\<lparr>counts := (counts h)[index := counts h ! index + 1]\<rparr>))"

text \<open>\<^verbatim>\<open>Decrease\<close>: \<^verbatim>\<open>counts[index] <= 0\<close> on an unsigned count.\<close>

definition Decrease :: "PRECI_INTEGER Histo \<Rightarrow> nat \<Rightarrow> PRECI_INTEGER Histo mutated" where
  "Decrease h index =
     (if index \<ge> length (counts h) then Inl (OutOfRangeAccess, h)
      else if counts h ! index \<le> 0 then Inl (Thrown Decrease_negative, h)
      else Inr (h\<lparr>counts := (counts h)[index := counts h ! index - 1]\<rparr>))"

text \<open>\<^verbatim>\<open>SetCount\<close>: \<^verbatim>\<open>if (index > bins) throw ...; counts[index] = v;\<close>\<close>

definition SetCount :: "PRECI_INTEGER Histo \<Rightarrow> nat \<Rightarrow> PRECI_INTEGER \<Rightarrow> PRECI_INTEGER Histo mutated" where
  "SetCount h index v =
     (if index > bins h then Inl (Thrown SetCount_out_of_bounds, h)
      else if index \<ge> length (counts h) then Inl (OutOfRangeAccess, h)
      else Inr (h\<lparr>counts := (counts h)[index := v]\<rparr>))"

subsection \<open>Derived views\<close>

text \<open>
  \<^verbatim>\<open>ComputeBinCenters\<close>: one center per count; \<^verbatim>\<open>breaks[i + 1]\<close> is read for every
  \<^verbatim>\<open>i < counts.size()\<close>.
\<close>

definition ComputeBinCenters :: "'c Histo \<Rightarrow> fault + BreaksType" where
  "ComputeBinCenters h =
     (if counts h \<noteq> [] \<and> length (counts h) \<ge> length (breaks h) then Inl OutOfRangeAccess
      else Inr (map (\<lambda>i. breaks h ! i + (breaks h ! (i + 1) - breaks h ! i) / 2)
                  [0..<length (counts h)]))"

text \<open>\<^verbatim>\<open>std::inner_product(first1, last1, first2, init)\<close>: \<^verbatim>\<open>init = init + *first1 * *first2\<close>.\<close>

fun inner_product :: "PRECI list \<Rightarrow> PRECI_INTEGER list \<Rightarrow> PRECI \<Rightarrow> PRECI" where
  "inner_product (c # cs) (k # ks) init = inner_product cs ks (init + c * real (unat k))"
| "inner_product cs ks init = init"

text \<open>\<^verbatim>\<open>Mean\<close>: the inner product of centers and counts, divided by \<^verbatim>\<open>bins\<close>.\<close>

definition Mean :: "PRECI_INTEGER Histo \<Rightarrow> fault + PRECI" where
  "Mean input_histo =
     (case ComputeBinCenters input_histo of
        Inl e \<Rightarrow> Inl e
      | Inr bin_centers \<Rightarrow>
          if bins input_histo = 0 then Inl NonFinite
          else Inr (inner_product bin_centers (counts input_histo) 0 / real (bins input_histo)))"

text \<open>The first loop of \<^verbatim>\<open>NormalizeByArea\<close>: the area under the histogram.\<close>

definition area_sum :: "PRECI_INTEGER Histo \<Rightarrow> PRECI" where
  "area_sum h =
     foldl (\<lambda>sum i. sum + real (unat (counts h ! i)) * \<bar>breaks h ! (i + 1) - breaks h ! i\<bar>)
       0 [0..<bins h]"

text \<open>
  \<^verbatim>\<open>NormalizeByArea\<close>. The loop reads \<^verbatim>\<open>counts[i]\<close> and \<^verbatim>\<open>breaks[i + 1]\<close> for
  \<^verbatim>\<open>i < bins\<close>; \<^verbatim>\<open>std::transform\<close> writes one element per input count into a vector of
  \<^verbatim>\<open>bins\<close> elements. The output starts as a default-constructed histogram of which
  \<^verbatim>\<open>bins\<close>, \<^verbatim>\<open>breaks\<close> and \<^verbatim>\<open>counts\<close> are assigned.
\<close>

definition NormalizeByArea :: "PRECI_INTEGER Histo \<Rightarrow> fault + PRECI Histo" where
  "NormalizeByArea input_histo =
     (if bins input_histo > length (counts input_histo)
         \<or> (bins input_histo > 0 \<and> bins input_histo \<ge> length (breaks input_histo))
      then Inl OutOfRangeAccess
      else if length (counts input_histo) > bins input_histo then Inl OutOfRangeAccess
      else if counts input_histo \<noteq> [] \<and> area_sum input_histo = 0 then Inl NonFinite
      else Inr (Histo_default
                  \<lparr>breaks := breaks input_histo,
                   bins := bins input_histo,
                   counts := map (\<lambda>d. real (unat d) / area_sum input_histo) (counts input_histo)\<rparr>))"

subsection \<open>Balancing breaks against a range\<close>

text \<open>
  \<^verbatim>\<open>CheckBreaksAreEquidistant\<close>: every gap is compared with the first one, with a
  tolerance of 100 epsilons. \<^verbatim>\<open>input_breaks[1]\<close> is read whatever the size.
\<close>

definition CheckBreaksAreEquidistant :: "BreaksType \<Rightarrow> fault + bool" where
  "CheckBreaksAreEquidistant input_breaks =
     (if length input_breaks < 2 then Inl OutOfRangeAccess
      else Inr (list_all
                  (\<lambda>i. isequalthan 100 (input_breaks ! i - input_breaks ! (i - 1))
                         (input_breaks ! 1 - input_breaks ! 0))
                  [1..<length input_breaks]))"

definition ShiftBreaks :: "BreaksType \<Rightarrow> PRECI \<Rightarrow> BreaksType" where
  "ShiftBreaks input_breaks d = map (\<lambda>v. v + d) input_breaks"

definition ShrinkOrExpandBreaks :: "BreaksType \<Rightarrow> PRECI \<Rightarrow> BreaksType" where
  "ShrinkOrExpandBreaks input_breaks d =
     map (\<lambda>i. input_breaks ! i + real i * d) [0..<length input_breaks]"

text \<open>
  The loop \<^verbatim>\<open>while (diff_upper < 0)\<close> of \<^verbatim>\<open>BalanceBreaksWithRange\<close>. It may run for
  ever, so it is a partial function: \<open>None\<close> is the loop that does not end.
\<close>

partial_function (option) add_bins ::
  "PRECI \<Rightarrow> PRECI \<Rightarrow> PRECI \<Rightarrow> nat \<Rightarrow> BreaksType \<Rightarrow> PRECI \<Rightarrow> (nat \<times> BreaksType \<times> PRECI) option"
where
  "add_bins low upper width nbins input_breaks diff_upper =
     (if diff_upper < 0
      then add_bins low upper width (nbins + 1)
             (input_breaks @ [low + real (nbins + 1) * width])
             ((input_breaks @ [low + real (nbins + 1) * width]) ! (nbins + 1) - upper)
      else Some (nbins, input_breaks, diff_upper))"

declare add_bins.simps [code]

text \<open>
  The end of \<^verbatim>\<open>BalanceBreaksWithRange\<close>, from the loop on: add bins, then shrink the
  widths when the last break went beyond the range.
\<close>

definition balance_add_or_shrink ::
  "RangeType \<Rightarrow> PRECI \<Rightarrow> nat \<Rightarrow> BreaksType \<Rightarrow> PRECI \<Rightarrow> (fault + bool \<times> BreaksType) option"
where
  "balance_add_or_shrink input_range width nbins input_breaks diff_upper =
     (case add_bins (fst input_range) (snd input_range) width nbins input_breaks diff_upper of
        None \<Rightarrow> None
      | Some (nbins', breaks', diff_upper') \<Rightarrow>
          if isequalthan 1 diff_upper' 0 then Some (Inr (True, breaks'))
          else if nbins' = 0 then Some (Inl NonFinite)
          else Some (Inr (True, ShrinkOrExpandBreaks breaks' (- (diff_upper' / real nbins')))))"

text \<open>
  The middle of \<^verbatim>\<open>BalanceBreaksWithRange\<close>: whether to remove the last break
  (\<^verbatim>\<open>bias_to_add_bin = 0.8\<close>) and expand the others. \<^verbatim>\<open>diff_upper_before / nbins\<close> divides
  by zero when a single bin is removed.
\<close>

definition balance_remove_or_add ::
  "RangeType \<Rightarrow> PRECI \<Rightarrow> nat \<Rightarrow> BreaksType \<Rightarrow> PRECI \<Rightarrow> (fault + bool \<times> BreaksType) option"
where
  "balance_remove_or_add input_range width nbins input_breaks diff_upper =
     (let diff_upper_before = input_breaks ! (nbins - 1) - snd input_range in
      if diff_upper_before < 0 \<and> diff_upper > 0
           \<and> \<bar>diff_upper_before\<bar> < (8 / 10) * \<bar>diff_upper\<bar>
      then if nbins - 1 = 0 then Some (Inl NonFinite)
           else let breaks' = ShrinkOrExpandBreaks (butlast input_breaks)
                                (- (diff_upper_before / real (nbins - 1)));
                    diff_upper' = breaks' ! (nbins - 1) - snd input_range
                in if isequalthan 1 diff_upper' 0 then Some (Inr (True, breaks'))
                   else balance_add_or_shrink input_range width (nbins - 1) breaks' diff_upper'
      else balance_add_or_shrink input_range width nbins input_breaks diff_upper)"

text \<open>
  \<^verbatim>\<open>BalanceBreaksWithRange\<close>: the breaks are changed in place and the result says whether
  they were; the model returns both.
\<close>

definition BalanceBreaksWithRange ::
  "BreaksType \<Rightarrow> RangeType \<Rightarrow> (fault + bool \<times> BreaksType) option"
where
  "BalanceBreaksWithRange input_breaks input_range =
     (case CheckBreaksAreEquidistant input_breaks of
        Inl e \<Rightarrow> Some (Inl e)
      | Inr False \<Rightarrow> Some (Inl (Thrown breaks_not_equidistant))
      | Inr True \<Rightarrow>
          let nbins = length input_breaks - 1;
              width = input_breaks ! 1 - input_breaks ! 0;
              diff_low = input_breaks ! 0 - fst input_range;
              diff_upper = input_breaks ! nbins - snd input_range;
              diff_low_isZero = isequalthan 1 diff_low 0;
              diff_upper_isZero = isequalthan 1 diff_upper 0
          in if diff_low_isZero \<and> diff_upper_isZero then Some (Inr (False, input_breaks))
             else let breaks' = (if \<not> diff_low_isZero then ShiftBreaks input_breaks (- diff_low)
                                 else input_breaks);
                      diff_upper' = breaks' ! nbins - snd input_range
                  in if isequalthan 1 diff_upper' 0 then Some (Inr (True, breaks'))
                     else balance_remove_or_add input_range width nbins breaks' diff_upper')"

subsection \<open>Scott's method\<close>

text \<open>
  \<^verbatim>\<open>variance_welford\<close>: one pass with the running mean \<^verbatim>\<open>M\<close> and the sum \<^verbatim>\<open>S\<close>. The
  counter \<^verbatim>\<open>N\<close> is an \<^verbatim>\<open>unsigned long long\<close>: \<^verbatim>\<open>N - 1\<close> wraps for no data and is zero
  for one datum.
\<close>

definition welford_step :: "PRECI \<Rightarrow> nat \<times> PRECI \<times> PRECI \<Rightarrow> nat \<times> PRECI \<times> PRECI" where
  "welford_step x = (\<lambda>(N, M, S).
     (N + 1, M + (x - M) / real (N + 1), S + (x - M) * (x - (M + (x - M) / real (N + 1)))))"

definition variance_welford :: "PRECI list \<Rightarrow> fault + PRECI" where
  "variance_welford xs =
     (case fold welford_step xs (0, 0, 0) of
        (N, M, S) \<Rightarrow>
          if N = 1 then Inl NonFinite
          else if N = 0 then Inr (S / (2 ^ 64 - 1))
          else Inr (S / real (N - 1)))"

text \<open>
  The conversion of \<^verbatim>\<open>std::ceil(...)\<close> to \<^verbatim>\<open>unsigned long int\<close>, defined only for a
  value that the type holds.
\<close>

definition to_unsigned_long :: "int \<Rightarrow> fault + nat" where
  "to_unsigned_long c = (if c < 0 \<or> c \<ge> 2 ^ 64 then Inl BadConversion else Inr (nat c))"

text \<open>
  \<^verbatim>\<open>ScottMethod\<close>, a member function: it reads \<^verbatim>\<open>this->range\<close> and assigns
  \<^verbatim>\<open>this->breaks\<close> and \<^verbatim>\<open>this->bins\<close>. The square root of a negative number and the
  divisions by a zero cube root or a zero width leave the finite numbers.
\<close>

definition ScottMethod ::
  "PRECI_INTEGER Histo \<Rightarrow> PRECI list \<Rightarrow> RangeType \<Rightarrow> (fault + PRECI_INTEGER Histo) option"
where
  "ScottMethod h data rang =
     (case variance_welford data of
        Inl e \<Rightarrow> Some (Inl e)
      | Inr sigma \<Rightarrow>
          if sigma < 0 \<or> root 3 (real (length data)) = 0 then Some (Inl NonFinite)
          else let width = (35 / 10) * sqrt sigma / root 3 (real (length data)) in
            if width = 0 then Some (Inl NonFinite)
            else case to_unsigned_long \<lceil>(snd rang - fst rang) / width\<rceil> of
                Inl e \<Rightarrow> Some (Inl e)
              | Inr bins' \<Rightarrow>
                  (case BalanceBreaksWithRange
                          (map (\<lambda>i. fst (range_lu h) + real i * width) [0..<bins' + 1])
                          (range_lu h) of
                     None \<Rightarrow> None
                   | Some (Inl e) \<Rightarrow> Some (Inl e)
                   | Some (Inr (changed, breaks')) \<Rightarrow>
                       Some (Inr (h\<lparr>breaks := breaks', bins := length breaks' - 1\<rparr>))))"

text \<open>
  \<^verbatim>\<open>enum breaks_method { Scott = 0 }\<close>; the \<^verbatim>\<open>default\<close> branch of \<^verbatim>\<open>CalculateBreaks\<close>
  (the throw of \<open>no_valid_method\<close>) is not reached by a value of the enumeration.
\<close>

datatype breaks_method = Scott

fun CalculateBreaks ::
  "PRECI_INTEGER Histo \<Rightarrow> PRECI list \<Rightarrow> RangeType \<Rightarrow> breaks_method
     \<Rightarrow> (fault + PRECI_INTEGER Histo) option"
where
  "CalculateBreaks h data rang Scott = ScottMethod h data rang"

subsection \<open>The constructors\<close>

text \<open>
  The common end of the three constructors:
  \<^verbatim>\<open>bins = breaks.size() - 1; ResetCounts(); FillCounts(data);\<close>
  An exception leaves no object.
\<close>

definition bins_reset_fill :: "PRECI_INTEGER Histo \<Rightarrow> PRECI list \<Rightarrow> fault + PRECI_INTEGER Histo" where
  "bins_reset_fill h data =
     (case FillCounts (ResetCounts (h\<lparr>bins := length (breaks h) - 1\<rparr>)) data of
        Inl (e, h') \<Rightarrow> Inl e
      | Inr h' \<Rightarrow> Inr h')"

text \<open>
  \<^verbatim>\<open>Histo(data, method)\<close>: the range is the minimum and maximum of the data
  (\<^verbatim>\<open>std::minmax_element\<close>, whose iterators are dereferenced whatever the data).
\<close>

definition Histo_data :: "PRECI list \<Rightarrow> breaks_method \<Rightarrow> (fault + PRECI_INTEGER Histo) option" where
  "Histo_data data method =
     (case data of
        [] \<Rightarrow> Some (Inl OutOfRangeAccess)
      | x # xs \<Rightarrow>
          (case CalculateBreaks (Histo_default\<lparr>range_lu := (fold min xs x, fold max xs x)\<rparr>)
                  data (fold min xs x, fold max xs x) method of
             None \<Rightarrow> None
           | Some (Inl e) \<Rightarrow> Some (Inl e)
           | Some (Inr h) \<Rightarrow> Some (bins_reset_fill h data)))"

text \<open>\<^verbatim>\<open>Histo(data, input_range, method)\<close>.\<close>

definition Histo_data_range ::
  "PRECI list \<Rightarrow> RangeType \<Rightarrow> breaks_method \<Rightarrow> (fault + PRECI_INTEGER Histo) option"
where
  "Histo_data_range data input_range method =
     (case CalculateBreaks (Histo_default\<lparr>range_lu := input_range\<rparr>) data input_range method of
        None \<Rightarrow> None
      | Some (Inl e) \<Rightarrow> Some (Inl e)
      | Some (Inr h) \<Rightarrow> Some (bins_reset_fill h data))"

text \<open>\<^verbatim>\<open>Histo(data, input_breaks)\<close>.\<close>

definition Histo_data_breaks :: "PRECI list \<Rightarrow> BreaksType \<Rightarrow> fault + PRECI_INTEGER Histo" where
  "Histo_data_breaks data input_breaks =
     (case CheckIfMonotonicallyIncreasing input_breaks of
        Inl e \<Rightarrow> Inl e
      | Inr False \<Rightarrow> Inl (Thrown breaks_not_monotonic)
      | Inr True \<Rightarrow>
          bins_reset_fill
            (Histo_default
               \<lparr>range_lu := (input_breaks ! 0, input_breaks ! (length input_breaks - 1)),
                breaks := input_breaks\<rparr>)
            data)"

subsection \<open>Length consistency\<close>

text \<open>
  The comments of the data members: \<^verbatim>\<open>size.breaks = size.counts + 1\<close> and, for \<^verbatim>\<open>bins\<close>,
  \<^verbatim>\<open>breaks.size() - 1\<close>. The subtraction is on unsigned integers, so it is stated as an
  addition: there is at least one break.
\<close>

definition length_consistent :: "'c Histo \<Rightarrow> bool" where
  "length_consistent h \<longleftrightarrow> length (breaks h) = bins h + 1 \<and> length (counts h) = bins h"

text \<open>
  Eight data with mean 0 and variance 4, for which Scott's width is \<open>3.5 * 2 / 2\<close>.
\<close>

definition data_eight :: "PRECI list" where
  "data_eight = [- 3, 3, - 2, 2, - 1, 1, 0, 0]"

text \<open>The histogram of these data: breaks \<open>[-3, 1/2, 4]\<close> balanced with the range \<open>(-3, 3)\<close>.\<close>

definition histo_eight :: "PRECI_INTEGER Histo" where
  "histo_eight =
     \<lparr>range_lu = (- 3, 3), breaks = [- 3, 0, 3], bins = 2, counts = [3, 5], name = []\<rparr>"

subsection \<open>Histograms of the test suite (test/test_histo.cpp)\<close>

text \<open>\<^verbatim>\<open>HistoConstructor.withBreaks\<close>: data \<^verbatim>\<open>{1, 1, 2, 3, 19}\<close>, breaks \<^verbatim>\<open>{1, 2, 15, 20}\<close>.\<close>

definition histo_withBreaks :: "PRECI_INTEGER Histo" where
  "histo_withBreaks =
     \<lparr>range_lu = (1, 20), breaks = [1, 2, 15, 20], bins = 3, counts = [2, 2, 1], name = []\<rparr>"

text \<open>\<^verbatim>\<open>HistoDoubleScott\<close>: data \<^verbatim>\<open>{1, 3, 5}\<close>, one bin from 1 to 5.\<close>

definition histo_DoubleScott :: "PRECI_INTEGER Histo" where
  "histo_DoubleScott =
     \<lparr>range_lu = (1, 5), breaks = [1, 5], bins = 1, counts = [3], name = []\<rparr>"

text \<open>Two bins of width 2 with one count each, as built from data \<^verbatim>\<open>{1, 3}\<close> and breaks \<^verbatim>\<open>{0, 2, 4}\<close>.\<close>

definition histo_even :: "PRECI_INTEGER Histo" where
  "histo_even =
     \<lparr>range_lu = (0, 4), breaks = [0, 2, 4], bins = 2, counts = [1, 1], name = []\<rparr>"

section \<open>Properties\<close>

subsection \<open>The binary search\<close>

lemma monotone_from_sorted_wrt: "monotone_from p xs \<longleftrightarrow> sorted_wrt (<) (p # xs)"
proof (induction xs arbitrary: p)
  case Nil
  show ?case by simp
next
  case (Cons x xs)
  have "monotone_from p (x # xs) \<longleftrightarrow> p < x \<and> sorted_wrt (<) (x # xs)"
    using Cons.IH [of x] by auto
  also have "\<dots> \<longleftrightarrow> sorted_wrt (<) (p # x # xs)"
    by auto
  finally show ?case .
qed

lemma CheckIfMonotonicallyIncreasing_nth:
  assumes "CheckIfMonotonicallyIncreasing bs = Inr True" and "i < j" and "j < length bs"
  shows "bs ! i < bs ! j"
proof -
  from assms(1) obtain b rest where bs: "bs = b # rest" and "monotone_from b rest"
    by (auto simp: CheckIfMonotonicallyIncreasing_def split: list.splits)
  then have "sorted_wrt (<) bs"
    by (simp only: monotone_from_sorted_wrt)
  with assms(2,3) show ?thesis
    by (simp only: sorted_wrt_nth_less)
qed

lemma IndexFromValue_loop_inv:
  "lo < hi \<Longrightarrow> bs ! lo \<le> v \<Longrightarrow> hi = n \<or> v < bs ! hi \<Longrightarrow>
     lo \<le> IndexFromValue_loop bs v lo hi \<and> IndexFromValue_loop bs v lo hi < hi \<and>
     bs ! IndexFromValue_loop bs v lo hi \<le> v \<and>
     (IndexFromValue_loop bs v lo hi + 1 = n \<or> v < bs ! (IndexFromValue_loop bs v lo hi + 1))"
proof (induction bs v lo hi rule: IndexFromValue_loop.induct)
  case (1 bs v lo hi)
  let ?m = "(hi + lo) div 2"
  show ?case
  proof (cases "hi - lo \<ge> 2")
    case False
    then have eq: "IndexFromValue_loop bs v lo hi = lo"
      by (simp add: IndexFromValue_loop.simps [of bs v lo hi])
    from "1.prems" False have "hi = lo + 1" by simp
    with "1.prems" show ?thesis unfolding eq by auto
  next
    case True
    then have m: "lo < ?m" "?m < hi" by auto
    show ?thesis
    proof (cases "v \<ge> bs ! ?m")
      case ge: True
      have "lo \<le> ?m" using m by simp
      with "1.IH"(1) [OF True ge m(2) ge "1.prems"(3)] True ge show ?thesis
        by (simp add: IndexFromValue_loop.simps [of bs v lo hi])
    next
      case lt: False
      then have "?m = n \<or> v < bs ! ?m" by simp
      with "1.IH"(2) [OF True lt m(1) "1.prems"(2)] True lt m show ?thesis
        by (simp add: IndexFromValue_loop.simps [of bs v lo hi])
    qed
  qed
qed

lemma IndexFromValue_loop_top:
  "lo < hi \<Longrightarrow> \<forall>j. lo < j \<and> j < hi \<longrightarrow> bs ! j \<le> v \<Longrightarrow>
     IndexFromValue_loop bs v lo hi = hi - 1"
proof (induction bs v lo hi rule: IndexFromValue_loop.induct)
  case (1 bs v lo hi)
  let ?m = "(hi + lo) div 2"
  show ?case
  proof (cases "hi - lo \<ge> 2")
    case False
    then have eq: "IndexFromValue_loop bs v lo hi = lo"
      by (simp add: IndexFromValue_loop.simps [of bs v lo hi])
    from "1.prems" False have "hi = lo + 1" by simp
    then show ?thesis unfolding eq by simp
  next
    case True
    then have m: "lo < ?m" "?m < hi" by auto
    with "1.prems" have ge: "v \<ge> bs ! ?m" by blast
    have "\<forall>j. ?m < j \<and> j < hi \<longrightarrow> bs ! j \<le> v" using "1.prems" m by auto
    with "1.IH"(1) [OF True ge m(2)] True ge show ?thesis
      by (simp add: IndexFromValue_loop.simps [of bs v lo hi])
  qed
qed

lemma isequalthan_1_iff: "isequalthan (Suc 0) v b \<longleftrightarrow> b - epsilon \<le> v \<and> v \<le> b + epsilon"
  by (auto simp: isequalthan_def)

lemma epsilon_pos: "0 < epsilon"
  by (simp add: epsilon_def)

text \<open>
  C3. For strictly increasing breaks of length at least 2 (with \<open>bins\<close> one less than the
  number of breaks) and a value \<open>v\<close> between the first and the last break, \<open>IndexFromValue\<close>
  returns an index \<open>i\<close> of a bin with \<open>breaks[i] \<le> v\<close>, and \<open>v < breaks[i + 1]\<close> unless \<open>i\<close> is
  the last bin, whose upper edge belongs to it.
\<close>

theorem IndexFromValue_in_bin:
  assumes "2 \<le> length (breaks h)"
    and "bins h = length (breaks h) - 1"
    and "CheckIfMonotonicallyIncreasing (breaks h) = Inr True"
    and "hd (breaks h) \<le> v"
    and "v \<le> last (breaks h)"
  shows "\<exists>i. IndexFromValue h v = Inr i \<and> i < bins h \<and> breaks h ! i \<le> v
           \<and> (v < breaks h ! (i + 1) \<or> i = bins h - 1) \<and> v \<le> breaks h ! (i + 1)"
proof -
  let ?bs = "breaks h"
  let ?i = "IndexFromValue_loop ?bs v 0 (bins h)"
  from assms(1) have ne: "?bs \<noteq> []" by auto
  from assms(1,2) have b: "0 < bins h" "bins h < length ?bs" by auto
  have front: "?bs ! 0 \<le> v" using assms(4) ne by (simp add: hd_conv_nth)
  have upper: "v \<le> ?bs ! bins h" using assms(2,5) ne by (simp add: last_conv_nth)
  then have "v < ?bs ! bins h \<or> isequalthan 1 v (?bs ! bins h)"
    using epsilon_pos by (auto simp: isequalthan_1_iff)
  with ne front b have res: "IndexFromValue h v = Inr ?i"
    by (simp add: IndexFromValue_def)
  have inv: "?i < bins h \<and> ?bs ! ?i \<le> v \<and> (?i + 1 = bins h \<or> v < ?bs ! (?i + 1))"
    using IndexFromValue_loop_inv [of 0 "bins h" ?bs v "bins h"] b front by simp
  then have "v \<le> ?bs ! (?i + 1)" using upper by auto
  with res inv show ?thesis by auto
qed

theorem IndexFromValue_in_bin_witness:
  "2 \<le> length (breaks histo_withBreaks)
   \<and> bins histo_withBreaks = length (breaks histo_withBreaks) - 1
   \<and> CheckIfMonotonicallyIncreasing (breaks histo_withBreaks) = Inr True
   \<and> hd (breaks histo_withBreaks) \<le> 20 \<and> 20 \<le> last (breaks histo_withBreaks)
   \<and> (\<exists>i. IndexFromValue histo_withBreaks 20 = Inr i \<and> i < bins histo_withBreaks
          \<and> breaks histo_withBreaks ! i \<le> 20
          \<and> (20 < breaks histo_withBreaks ! (i + 1) \<or> i = bins histo_withBreaks - 1)
          \<and> 20 \<le> breaks histo_withBreaks ! (i + 1))"
proof -
  have hyps: "2 \<le> length (breaks histo_withBreaks)"
    "bins histo_withBreaks = length (breaks histo_withBreaks) - 1"
    "CheckIfMonotonicallyIncreasing (breaks histo_withBreaks) = Inr True"
    "hd (breaks histo_withBreaks) \<le> 20" "20 \<le> last (breaks histo_withBreaks)"
    by (simp_all add: histo_withBreaks_def CheckIfMonotonicallyIncreasing_def)
  from IndexFromValue_in_bin [OF hyps] hyps show ?thesis by blast
qed

text \<open>
  C6 as stated fails at the lower boundary: the value \<open>1 - epsilon\<close>, within one epsilon of
  the first break of the one-bin histogram on \<open>[1, 5]\<close>, is rejected
  (\<^verbatim>\<open>HistoDoubleScott.IndexFromValueWorks\<close> asserts this throw).
\<close>

theorem IndexFromValue_below_front_rejected:
  "isequalthan 1 (1 - epsilon) (hd (breaks histo_DoubleScott))
   \<and> IndexFromValue histo_DoubleScott (1 - epsilon) = Inl (Thrown IndexFromValue_out_of_bonds)"
  by (simp add: histo_DoubleScott_def IndexFromValue_def isequalthan_def epsilon_def)

text \<open>
  C6, amended. With at least two strictly increasing breaks and \<open>bins\<close> one less than their
  number, \<open>IndexFromValue\<close> throws if and only if the value is below the first break (no
  tolerance there) or more than one epsilon above the last break; a value between the
  last break and one epsilon above it is accepted and assigned to the last bin.
\<close>

theorem IndexFromValue_throws_iff:
  assumes "2 \<le> length (breaks h)"
    and "bins h = length (breaks h) - 1"
    and "CheckIfMonotonicallyIncreasing (breaks h) = Inr True"
  shows "(IndexFromValue h v = Inl (Thrown IndexFromValue_out_of_bonds)
            \<longleftrightarrow> v < hd (breaks h) \<or> last (breaks h) + epsilon < v)
         \<and> (last (breaks h) \<le> v \<and> v \<le> last (breaks h) + epsilon
            \<longrightarrow> IndexFromValue h v = Inr (bins h - 1))"
proof -
  let ?bs = "breaks h"
  from assms(1) have ne: "?bs \<noteq> []" by auto
  from assms(1,2) have b: "0 < bins h" "bins h < length ?bs" by auto
  have hd: "hd ?bs = ?bs ! 0" using ne by (simp add: hd_conv_nth)
  have last: "last ?bs = ?bs ! bins h" using assms(2) ne by (simp add: last_conv_nth)
  have accept: "v < ?bs ! bins h \<or> isequalthan 1 v (?bs ! bins h) \<longleftrightarrow> v \<le> ?bs ! bins h + epsilon"
    using epsilon_pos by (auto simp: isequalthan_1_iff)
  have iff: "IndexFromValue h v = Inl (Thrown IndexFromValue_out_of_bonds)
               \<longleftrightarrow> v < hd ?bs \<or> last ?bs + epsilon < v"
    unfolding hd last using ne b accept by (auto simp: IndexFromValue_def)
  have top: "IndexFromValue h v = Inr (bins h - 1)"
    if v: "last ?bs \<le> v" "v \<le> last ?bs + epsilon"
  proof -
    have all: "?bs ! j \<le> v" if "j \<le> bins h" for j
    proof (cases "j = bins h")
      case True
      with v(1) show ?thesis by (simp add: last)
    next
      case False
      with that have "j < bins h" by simp
      from CheckIfMonotonicallyIncreasing_nth [OF assms(3) this b(2)] v(1) show ?thesis
        by (simp add: last)
    qed
    have "IndexFromValue_loop ?bs v 0 (bins h) = bins h - 1"
      using IndexFromValue_loop_top [of 0 "bins h" ?bs v] b all by simp
    moreover have "IndexFromValue h v = Inr (IndexFromValue_loop ?bs v 0 (bins h))"
      using ne b accept v(2) all [of 0] by (simp add: IndexFromValue_def last)
    ultimately show ?thesis by simp
  qed
  from iff top show ?thesis by blast
qed

theorem IndexFromValue_throws_iff_witness:
  "2 \<le> length (breaks histo_withBreaks)
   \<and> bins histo_withBreaks = length (breaks histo_withBreaks) - 1
   \<and> CheckIfMonotonicallyIncreasing (breaks histo_withBreaks) = Inr True
   \<and> last (breaks histo_withBreaks) \<le> 20 + epsilon
   \<and> 20 + epsilon \<le> last (breaks histo_withBreaks) + epsilon
   \<and> IndexFromValue histo_withBreaks (20 + epsilon) = Inr (bins histo_withBreaks - 1)
   \<and> IndexFromValue histo_withBreaks (20 + epsilon) \<noteq> Inl (Thrown IndexFromValue_out_of_bonds)"
proof -
  have hyps: "2 \<le> length (breaks histo_withBreaks)"
    "bins histo_withBreaks = length (breaks histo_withBreaks) - 1"
    "CheckIfMonotonicallyIncreasing (breaks histo_withBreaks) = Inr True"
    by (simp_all add: histo_withBreaks_def CheckIfMonotonicallyIncreasing_def)
  have v: "last (breaks histo_withBreaks) \<le> 20 + epsilon"
    "20 + epsilon \<le> last (breaks histo_withBreaks) + epsilon"
    by (simp_all add: histo_withBreaks_def epsilon_def)
  from IndexFromValue_throws_iff [OF hyps, of "20 + epsilon"] hyps v show ?thesis by simp
qed

subsection \<open>Filling the counts\<close>


lemma FillCounts_frame:
  "FillCounts h data = Inr h' \<Longrightarrow>
     breaks h' = breaks h \<and> bins h' = bins h \<and> range_lu h' = range_lu h \<and> name h' = name h
     \<and> length (counts h') = length (counts h)"
proof (induction data arbitrary: h)
  case Nil
  then show ?case by simp
next
  case (Cons v data)
  from Cons.prems obtain i where i: "IndexFromValue h v = Inr i" "i < length (counts h)"
    and rest: "FillCounts (h\<lparr>counts := (counts h)[i := counts h ! i + 1]\<rparr>) data = Inr h'"
    by (auto split: sum.splits if_splits)
  from Cons.IH [OF rest] show ?case by simp
qed






subsection \<open>The single-count mutators\<close>

text \<open>
  C5 as stated fails: \<open>Increase\<close> and \<open>Decrease\<close> at the index 3 of a histogram of 3 bins
  raise no error of theirs; they read \<open>counts[3]\<close>, outside the counts.
\<close>

theorem Increase_Decrease_unchecked_index:
  "bins histo_withBreaks \<le> 3
   \<and> Increase histo_withBreaks 3 = Inl (OutOfRangeAccess, histo_withBreaks)
   \<and> Decrease histo_withBreaks 3 = Inl (OutOfRangeAccess, histo_withBreaks)"
  by (simp add: histo_withBreaks_def Increase_def Decrease_def)

text \<open>
  C5, amended. \<open>SetCount\<close> with an index greater than \<open>bins\<close> throws its out-of-bounds error
  and leaves the histogram as it was, without reading or writing a count. \<open>Increase\<close> and
  \<open>Decrease\<close> check no index: at an index beyond the counts they read a count outside the
  counts sequence and no error of theirs is thrown; at an index within the counts they
  throw only for a count at the maximum, respectively at zero, and otherwise change that
  count alone.
\<close>

theorem mutators_index_checks:
  "(bins h < index \<longrightarrow> SetCount h index v = Inl (Thrown SetCount_out_of_bounds, h))
   \<and> (length (counts h) \<le> index \<longrightarrow>
        Increase h index = Inl (OutOfRangeAccess, h) \<and> Decrease h index = Inl (OutOfRangeAccess, h))
   \<and> (index < length (counts h) \<longrightarrow>
        Increase h index =
          (if counts h ! index = - 1 then Inl (Thrown Increase_exceeded, h)
           else Inr (h\<lparr>counts := (counts h)[index := counts h ! index + 1]\<rparr>))
        \<and> Decrease h index =
          (if counts h ! index = 0 then Inl (Thrown Decrease_negative, h)
           else Inr (h\<lparr>counts := (counts h)[index := counts h ! index - 1]\<rparr>)))"
  by (simp add: SetCount_def Increase_def Decrease_def)

theorem mutators_index_checks_witness:
  "bins histo_withBreaks < 100 \<and> length (counts histo_withBreaks) \<le> 100
   \<and> SetCount histo_withBreaks 100 2 = Inl (Thrown SetCount_out_of_bounds, histo_withBreaks)
   \<and> Increase histo_withBreaks 100 = Inl (OutOfRangeAccess, histo_withBreaks)
   \<and> Decrease histo_withBreaks 100 = Inl (OutOfRangeAccess, histo_withBreaks)"
proof -
  have hyps: "bins histo_withBreaks < 100" "length (counts histo_withBreaks) \<le> 100"
    by (simp_all add: histo_withBreaks_def)
  with mutators_index_checks [of histo_withBreaks 100 2] show ?thesis by simp
qed

subsection \<open>Mean\<close>

lemma inner_product_sum:
  "length cs = length ks \<Longrightarrow>
     inner_product cs ks init = init + (\<Sum>i<length ks. cs ! i * real (unat (ks ! i)))"
proof (induction cs ks arbitrary: init rule: list_induct2)
  case Nil
  show ?case by simp
next
  case (Cons c cs k ks)
  show ?case
    by (simp add: Cons.IH sum.lessThan_Suc_shift del: sum.lessThan_Suc)
qed

text \<open>
  C9. For a histogram with at least one bin (and one break more than bins, one count per
  bin), \<open>Mean\<close> is the sum over the bins of center times count, divided by the number of
  bins, where the center of bin \<open>i\<close> is \<open>(breaks[i] + breaks[i + 1]) / 2\<close>.
\<close>

theorem Mean_formula:
  assumes "1 \<le> bins h"
    and "length (breaks h) = bins h + 1"
    and "length (counts h) = bins h"
  shows "ComputeBinCenters h = Inr (map (\<lambda>i. (breaks h ! i + breaks h ! (i + 1)) / 2) [0..<bins h])
         \<and> Mean h = Inr ((\<Sum>i<bins h. (breaks h ! i + breaks h ! (i + 1)) / 2 * real (unat (counts h ! i)))
                          / real (bins h))"
proof -
  let ?centers = "map (\<lambda>i. (breaks h ! i + breaks h ! (i + 1)) / 2) [0..<bins h]"
  have c: "ComputeBinCenters h = Inr ?centers"
    using assms by (simp add: ComputeBinCenters_def field_simps)
  have "inner_product ?centers (counts h) 0
          = (\<Sum>i<bins h. (breaks h ! i + breaks h ! (i + 1)) / 2 * real (unat (counts h ! i)))"
    using assms(3) by (simp add: inner_product_sum)
  with c assms(1) show ?thesis by (simp add: Mean_def)
qed

theorem Mean_formula_witness:
  "1 \<le> bins histo_withBreaks
   \<and> length (breaks histo_withBreaks) = bins histo_withBreaks + 1
   \<and> length (counts histo_withBreaks) = bins histo_withBreaks
   \<and> Mean histo_withBreaks = Inr (25 / 2)"
proof -
  have hyps: "1 \<le> bins histo_withBreaks"
    "length (breaks histo_withBreaks) = bins histo_withBreaks + 1"
    "length (counts histo_withBreaks) = bins histo_withBreaks"
    by (simp_all add: histo_withBreaks_def)
  have "(\<Sum>i<bins histo_withBreaks. (breaks histo_withBreaks ! i + breaks histo_withBreaks ! (i + 1)) / 2
            * real (unat (counts histo_withBreaks ! i))) / real (bins histo_withBreaks) = 25 / 2"
    by (simp add: histo_withBreaks_def lessThan_Suc numeral_3_eq_3)
  with Mean_formula [OF hyps] hyps show ?thesis by simp
qed

subsection \<open>Normalisation by area\<close>

lemma foldl_add_upt:
  "foldl (\<lambda>s i. s + f i) a [0..<n] = a + (\<Sum>i<n. f i)" for a :: real
  by (induction n) simp_all

lemma area_sum_eq:
  "area_sum h = (\<Sum>j<bins h. real (unat (counts h ! j)) * \<bar>breaks h ! (j + 1) - breaks h ! j\<bar>)"
  by (simp add: area_sum_def foldl_add_upt)

lemma NormalizeByArea_Inr:
  assumes "NormalizeByArea h = Inr h'"
  shows "h' = Histo_default\<lparr>breaks := breaks h, bins := bins h,
               counts := map (\<lambda>d. real (unat d) / area_sum h) (counts h)\<rparr>"
    and "length (counts h) = bins h"
    and "counts h \<noteq> [] \<Longrightarrow> area_sum h \<noteq> 0"
  using assms by (auto simp: NormalizeByArea_def split: if_splits)

text \<open>
  C4 as stated fails: the two counts of \<open>histo_even\<close> (bins of width 2) become 1/4 each,
  not count times width over the area (1/2 each), and they sum to 1/2, not to 1.
\<close>

theorem NormalizeByArea_not_times_width:
  "NormalizeByArea histo_even
     = Inr \<lparr>range_lu = (0, 0), breaks = [0, 2, 4], bins = 2, counts = [1 / 4, 1 / 4], name = []\<rparr>
   \<and> real (unat (counts histo_even ! 0)) * (breaks histo_even ! 1 - breaks histo_even ! 0)
        / area_sum histo_even = 1 / 2
   \<and> breaks histo_even ! 1 - breaks histo_even ! 0 = breaks histo_even ! 2 - breaks histo_even ! 1
   \<and> sum_list (counts (\<lparr>range_lu = (0, 0), breaks = [0, 2, 4], bins = 2, counts = [1 / 4, 1 / 4], name = []\<rparr> :: PRECI Histo))
       = 1 / 2"
  by code_simp

text \<open>
  C4, amended. For a histogram with one break more than bins, one count per bin and a
  nonzero area \<open>Sum_j(count[j] * |binWidth[j]|)\<close>, \<open>NormalizeByArea\<close> returns a new histogram
  with the same breaks and bins whose i-th count is \<open>count[i] / Sum_j(count[j] * |binWidth[j]|)\<close>
  (the count is not multiplied by the width of its bin). Consequently the areas
  \<open>count'[i] * |binWidth[i]|\<close> of the output sum to 1, and when all bin widths are equal to
  \<open>w\<close> the output counts sum to \<open>1 / w\<close>, which is 1 only for bins of width 1.
\<close>

theorem NormalizeByArea_counts:
  assumes "length (breaks h) = bins h + 1"
    and "length (counts h) = bins h"
    and "area_sum h \<noteq> 0"
  shows "\<exists>h'. NormalizeByArea h = Inr h' \<and> breaks h' = breaks h \<and> bins h' = bins h
           \<and> length (counts h') = bins h
           \<and> (\<forall>i<bins h. counts h' ! i
                  = real (unat (counts h ! i))
                      / (\<Sum>j<bins h. real (unat (counts h ! j)) * \<bar>breaks h ! (j + 1) - breaks h ! j\<bar>))
           \<and> (\<Sum>i<bins h. counts h' ! i * \<bar>breaks h ! (i + 1) - breaks h ! i\<bar>) = 1
           \<and> (\<forall>w. (\<forall>i<bins h. \<bar>breaks h ! (i + 1) - breaks h ! i\<bar> = w)
                  \<longrightarrow> w * (\<Sum>i<bins h. counts h' ! i) = 1)"
proof -
  let ?A = "area_sum h"
  let ?h' = "Histo_default\<lparr>breaks := breaks h, bins := bins h,
               counts := map (\<lambda>d. real (unat d) / ?A) (counts h)\<rparr> :: PRECI Histo"
  have res: "NormalizeByArea h = Inr ?h'"
    using assms by (simp add: NormalizeByArea_def)
  have nth: "counts ?h' ! i = real (unat (counts h ! i)) / ?A" if "i < bins h" for i
    using that assms(2) by simp
  have "(\<Sum>i<bins h. counts ?h' ! i * \<bar>breaks h ! (i + 1) - breaks h ! i\<bar>)
          = (\<Sum>i<bins h. real (unat (counts h ! i)) * \<bar>breaks h ! (i + 1) - breaks h ! i\<bar> / ?A)"
    by (rule sum.cong) (simp_all add: assms(2))
  also have "\<dots> = ?A / ?A"
    by (simp only: area_sum_eq sum_divide_distrib)
  finally have one: "(\<Sum>i<bins h. counts ?h' ! i * \<bar>breaks h ! (i + 1) - breaks h ! i\<bar>) = 1"
    using assms(3) by simp
  have even: "w * (\<Sum>i<bins h. counts ?h' ! i) = 1"
    if w: "\<forall>i<bins h. \<bar>breaks h ! (i + 1) - breaks h ! i\<bar> = w" for w
  proof -
    have "w * (\<Sum>i<bins h. counts ?h' ! i) = (\<Sum>i<bins h. counts ?h' ! i * w)"
      by (simp add: sum_distrib_left mult.commute)
    also have "\<dots> = (\<Sum>i<bins h. counts ?h' ! i * \<bar>breaks h ! (i + 1) - breaks h ! i\<bar>)"
      by (rule sum.cong) (use w in simp_all)
    finally show ?thesis using one by simp
  qed
  have "breaks ?h' = breaks h \<and> bins ?h' = bins h \<and> length (counts ?h') = bins h"
    using assms(2) by simp
  moreover have "\<forall>i<bins h. counts ?h' ! i
                  = real (unat (counts h ! i))
                      / (\<Sum>j<bins h. real (unat (counts h ! j)) * \<bar>breaks h ! (j + 1) - breaks h ! j\<bar>)"
    using nth by (simp only: area_sum_eq) blast
  ultimately show ?thesis using res one even by blast
qed

theorem NormalizeByArea_counts_witness:
  "length (breaks histo_even) = bins histo_even + 1
   \<and> length (counts histo_even) = bins histo_even
   \<and> area_sum histo_even \<noteq> 0
   \<and> (\<exists>h'. NormalizeByArea histo_even = Inr h' \<and> breaks h' = breaks histo_even
          \<and> (\<Sum>i<bins histo_even. counts h' ! i * \<bar>breaks histo_even ! (i + 1) - breaks histo_even ! i\<bar>) = 1
          \<and> 2 * (\<Sum>i<bins histo_even. counts h' ! i) = 1)"
proof -
  have hyps: "length (breaks histo_even) = bins histo_even + 1"
    "length (counts histo_even) = bins histo_even"
    "area_sum histo_even \<noteq> 0"
    by code_simp+
  have w: "\<forall>i<bins histo_even. \<bar>breaks histo_even ! (i + 1) - breaks histo_even ! i\<bar> = 2"
    by (simp add: histo_even_def less_Suc_eq numeral_2_eq_2)
  from NormalizeByArea_counts [OF hyps] w hyps show ?thesis by blast
qed

text \<open>
  C10 as stated fails where the first break is 0: the output's \<open>range.low\<close>, left at 0, then
  equals \<open>breaks.front()\<close>.
\<close>

theorem NormalizeByArea_range_low_can_match:
  "NormalizeByArea histo_even
     = Inr \<lparr>range_lu = (0, 0), breaks = [0, 2, 4], bins = 2, counts = [1 / 4, 1 / 4], name = []\<rparr>
   \<and> fst (range_lu (\<lparr>range_lu = (0, 0), breaks = [0, 2, 4], bins = 2, counts = [1 / 4, 1 / 4], name = []\<rparr> :: PRECI Histo))
       = hd (breaks (\<lparr>range_lu = (0, 0), breaks = [0, 2, 4], bins = 2, counts = [1 / 4, 1 / 4], name = []\<rparr> :: PRECI Histo))
   \<and> range_lu histo_even = (0, 4)"
  by code_simp

text \<open>
  C10, amended. The histogram returned by \<open>NormalizeByArea\<close> carries only \<open>bins\<close>, \<open>breaks\<close> and
  the rescaled counts of its input: its range is \<open>(0, 0)\<close> and its name is empty, whatever
  those of the input are, so its \<open>range.low\<close> equals \<open>breaks.front()\<close> only when the first
  break is 0, and its \<open>range.upper\<close> equals \<open>breaks.back()\<close> only when the last break is 0.
  The input is a value of the model and is not changed by the call.
\<close>

theorem NormalizeByArea_frame:
  assumes "NormalizeByArea h = Inr h'"
  shows "range_lu h' = (0, 0) \<and> name h' = [] \<and> bins h' = bins h \<and> breaks h' = breaks h
         \<and> counts h' = map (\<lambda>d. real (unat d) / area_sum h) (counts h)
         \<and> (fst (range_lu h') = hd (breaks h') \<longleftrightarrow> hd (breaks h) = 0)
         \<and> (snd (range_lu h') = last (breaks h') \<longleftrightarrow> last (breaks h) = 0)"
proof -
  from NormalizeByArea_Inr(1) [OF assms] show ?thesis
    by (auto simp: Histo_default_def)
qed

theorem NormalizeByArea_frame_witness:
  "NormalizeByArea histo_withBreaks
     = Inr \<lparr>range_lu = (0, 0), breaks = [1, 2, 15, 20], bins = 3,
            counts = [2 / 33, 2 / 33, 1 / 33], name = []\<rparr>
   \<and> range_lu histo_withBreaks = (1, 20)
   \<and> fst (0 :: real, 0 :: real) \<noteq> hd (breaks histo_withBreaks)"
proof -
  have r: "NormalizeByArea histo_withBreaks
     = Inr \<lparr>range_lu = (0, 0), breaks = [1, 2, 15, 20], bins = 3,
            counts = [2 / 33, 2 / 33, 1 / 33], name = []\<rparr>"
    by code_simp
  from NormalizeByArea_frame [OF r] r show ?thesis
    by (simp add: histo_withBreaks_def)
qed

subsection \<open>The loop that adds bins\<close>





text \<open>What the loop returns, whenever it returns.\<close>

lemma add_bins_Some:
  assumes "add_bins low up w n bs du = Some (n', bs', du')" and "length bs = n + 1"
  shows "n \<le> n' \<and> bs' = bs @ map (\<lambda>j. low + real j * w) [n + 1..<n' + 1] \<and> \<not> du' < 0
         \<and> (if n' = n then du' = du else du' = low + real n' * w - up)"
proof -
  have "length bs = n + 1 \<longrightarrow>
          (case (n', bs', du') of (n', bs', du') \<Rightarrow>
             n \<le> n' \<and> bs' = bs @ map (\<lambda>j. low + real j * w) [n + 1..<n' + 1] \<and> \<not> du' < 0
             \<and> (if n' = n then du' = du else du' = low + real n' * w - up))"
  proof (rule add_bins.raw_induct
      [where P = "\<lambda>low up w n bs du y. length bs = n + 1 \<longrightarrow>
          (case y of (n', bs', du') \<Rightarrow>
             n \<le> n' \<and> bs' = bs @ map (\<lambda>j. low + real j * w) [n + 1..<n' + 1] \<and> \<not> du' < 0
             \<and> (if n' = n then du' = du else du' = low + real n' * w - up))",
        OF _ assms(1)])
    fix f :: "real \<Rightarrow> real \<Rightarrow> real \<Rightarrow> nat \<Rightarrow> real list \<Rightarrow> real \<Rightarrow> (nat \<times> real list \<times> real) option"
    fix low up w :: real and n :: nat and bs :: "real list" and du :: real
    fix y :: "nat \<times> real list \<times> real"
    assume IH: "\<And>low up w n bs du y. f low up w n bs du = Some y \<Longrightarrow>
        length bs = n + 1 \<longrightarrow>
          (case y of (n', bs', du') \<Rightarrow>
             n \<le> n' \<and> bs' = bs @ map (\<lambda>j. low + real j * w) [n + 1..<n' + 1] \<and> \<not> du' < 0
             \<and> (if n' = n then du' = du else du' = low + real n' * w - up))"
    assume eq: "(if du < 0
                 then f low up w (n + 1) (bs @ [low + real (n + 1) * w])
                        ((bs @ [low + real (n + 1) * w]) ! (n + 1) - up)
                 else Some (n, bs, du)) = Some y"
    show "length bs = n + 1 \<longrightarrow>
          (case y of (n', bs', du') \<Rightarrow>
             n \<le> n' \<and> bs' = bs @ map (\<lambda>j. low + real j * w) [n + 1..<n' + 1] \<and> \<not> du' < 0
             \<and> (if n' = n then du' = du else du' = low + real n' * w - up))"
    proof
      assume len: "length bs = n + 1"
      obtain n' bs' du' where y: "y = (n', bs', du')" by (cases y)
      show "case y of (n', bs', du') \<Rightarrow>
             n \<le> n' \<and> bs' = bs @ map (\<lambda>j. low + real j * w) [n + 1..<n' + 1] \<and> \<not> du' < 0
             \<and> (if n' = n then du' = du else du' = low + real n' * w - up)"
      proof (cases "du < 0")
        case False
        with eq y show ?thesis by simp
      next
        case True
        let ?x = "low + real (n + 1) * w"
        from True eq len have "f low up w (n + 1) (bs @ [?x]) (?x - up) = Some y"
          by (simp add: nth_append)
        from IH [OF this] len y
        have r: "n + 1 \<le> n'" "bs' = (bs @ [?x]) @ map (\<lambda>j. low + real j * w) [n + 1 + 1..<n' + 1]"
          "\<not> du' < 0" "if n' = n + 1 then du' = ?x - up else du' = low + real n' * w - up"
          by simp_all
        from r(1) have "[n + 1..<n' + 1] = (n + 1) # [n + 1 + 1..<n' + 1]"
          by (simp add: upt_conv_Cons)
        with r(2) have "bs' = bs @ map (\<lambda>j. low + real j * w) [n + 1..<n' + 1]" by simp
        moreover from r(4) have "du' = low + real n' * w - up" by (simp split: if_splits)
        ultimately show ?thesis using r(1,3) y by simp
      qed
    qed
  qed
  with assms(2) show ?thesis by simp
qed

subsection \<open>The equidistance check\<close>

lemma CheckBreaksAreEquidistant_iff:
  "CheckBreaksAreEquidistant bs = Inr True \<longleftrightarrow>
     2 \<le> length bs \<and> (\<forall>i. i + 1 < length bs \<longrightarrow>
        \<bar>(bs ! (i + 1) - bs ! i) - (bs ! 1 - bs ! 0)\<bar> \<le> 100 * epsilon)"
proof -
  have "(\<forall>i\<in>{1..<length bs}. \<bar>(bs ! i - bs ! (i - 1)) - (bs ! 1 - bs ! 0)\<bar> \<le> 100 * epsilon)
          \<longleftrightarrow> (\<forall>i. i + 1 < length bs \<longrightarrow> \<bar>(bs ! (i + 1) - bs ! i) - (bs ! 1 - bs ! 0)\<bar> \<le> 100 * epsilon)"
    (is "?L \<longleftrightarrow> ?R")
  proof
    assume l: ?L
    show ?R
    proof (intro allI impI)
      fix i assume "i + 1 < length bs"
      then have "i + 1 \<in> {1..<length bs}" by simp
      with l have "\<bar>(bs ! (i + 1) - bs ! (i + 1 - 1)) - (bs ! 1 - bs ! 0)\<bar> \<le> 100 * epsilon" by blast
      then show "\<bar>(bs ! (i + 1) - bs ! i) - (bs ! 1 - bs ! 0)\<bar> \<le> 100 * epsilon" by simp
    qed
  next
    assume r: ?R
    show ?L
    proof
      fix i assume "i \<in> {1..<length bs}"
      then have "i - 1 + 1 < length bs" "i - 1 + 1 = i" by simp_all
      with r [rule_format, of "i - 1"] show "\<bar>(bs ! i - bs ! (i - 1)) - (bs ! 1 - bs ! 0)\<bar> \<le> 100 * epsilon"
        by simp
    qed
  qed
  then show ?thesis
    by (auto simp: CheckBreaksAreEquidistant_def isequalthan_def list_all_iff)
qed

lemma length_ShiftBreaks: "length (ShiftBreaks bs d) = length bs"
  by (simp add: ShiftBreaks_def)

lemma nth_ShiftBreaks: "i < length bs \<Longrightarrow> ShiftBreaks bs d ! i = bs ! i + d"
  by (simp add: ShiftBreaks_def)

lemma length_ShrinkOrExpandBreaks: "length (ShrinkOrExpandBreaks bs d) = length bs"
  by (simp add: ShrinkOrExpandBreaks_def)

lemma nth_ShrinkOrExpandBreaks:
  "i < length bs \<Longrightarrow> ShrinkOrExpandBreaks bs d ! i = bs ! i + real i * d"
  by (simp add: ShrinkOrExpandBreaks_def)

lemma CheckBreaksAreEquidistant_ShiftBreaks:
  "CheckBreaksAreEquidistant (ShiftBreaks bs d) = Inr True \<longleftrightarrow> CheckBreaksAreEquidistant bs = Inr True"
proof -
  have "(ShiftBreaks bs d ! (i + 1) - ShiftBreaks bs d ! i)
          - (ShiftBreaks bs d ! 1 - ShiftBreaks bs d ! 0)
        = (bs ! (i + 1) - bs ! i) - (bs ! 1 - bs ! 0)" if "i + 1 < length bs" for i
  proof -
    from that have "0 < length bs" "1 < length bs" "i < length bs" by auto
    with that show ?thesis by (simp add: nth_ShiftBreaks)
  qed
  then show ?thesis
    unfolding CheckBreaksAreEquidistant_iff length_ShiftBreaks by (simp only: cong: imp_cong)
qed


subsection \<open>Termination of the balancing\<close>






subsection \<open>Balancing twice\<close>


lemma ShrinkOrExpandBreaks_0: "ShrinkOrExpandBreaks bs 0 = bs"
  by (simp add: ShrinkOrExpandBreaks_def map_nth)

lemma isequalthan_0_0: "isequalthan 1 0 0"
  by (simp add: isequalthan_def epsilon_def)

text \<open>The end of the balancing: the form of the breaks it returns.\<close>

lemma balance_add_or_shrink_form:
  assumes "balance_add_or_shrink rg w n bs du = Some (Inr (c, bs'))"
    and "length bs = n + 1" and "du = bs ! n - snd rg"
  shows "\<exists>n' s. n \<le> n'
           \<and> bs' = ShrinkOrExpandBreaks (bs @ map (\<lambda>j. fst rg + real j * w) [n + 1..<n' + 1]) s
           \<and> length bs' = n' + 1 \<and> bs' ! 0 = bs ! 0
           \<and> isequalthan 1 (bs' ! n' - snd rg) 0"
proof -
  from assms(1) obtain n' bs1 du1
    where a: "add_bins (fst rg) (snd rg) w n bs du = Some (n', bs1, du1)"
    by (auto simp: balance_add_or_shrink_def split: option.splits)
  let ?ext = "map (\<lambda>j. fst rg + real j * w) [n + 1..<n' + 1]"
  from add_bins_Some [OF a assms(2)]
  have n': "n \<le> n'" and bs1: "bs1 = bs @ ?ext"
    and du1: "if n' = n then du1 = du else du1 = fst rg + real n' * w - snd rg"
    by simp_all
  have len1: "length bs1 = n' + 1" using bs1 assms(2) n' by simp
  have hd1: "bs1 ! 0 = bs ! 0" using bs1 assms(2) by (simp add: nth_append)
  have last1: "du1 = bs1 ! n' - snd rg"
  proof (cases "n' = n")
    case True
    with du1 bs1 assms(2,3) show ?thesis by (simp add: nth_append)
  next
    case False
    with n' have "n < n'" by simp
    then have "bs1 ! n' = fst rg + real n' * w"
      unfolding bs1 using assms(2) by (simp add: nth_append)
    with du1 False show ?thesis by simp
  qed
  show ?thesis
  proof (cases "isequalthan 1 du1 0")
    case True
    with assms(1) a have "bs' = bs1" by (simp add: balance_add_or_shrink_def)
    with n' bs1 len1 hd1 last1 True show ?thesis
      by (metis ShrinkOrExpandBreaks_0)
  next
    case False
    with assms(1) a have nz: "n' \<noteq> 0"
      and r: "bs' = ShrinkOrExpandBreaks bs1 (- (du1 / real n'))"
      by (auto simp: balance_add_or_shrink_def split: if_splits)
    have "bs' ! n' = bs1 ! n' + real n' * (- (du1 / real n'))"
      unfolding r using len1 by (simp add: nth_ShrinkOrExpandBreaks)
    also have "\<dots> = bs1 ! n' - du1" using nz by simp
    finally have "bs' ! n' - snd rg = 0" using last1 by simp
    then have z: "isequalthan 1 (bs' ! n' - snd rg) 0" by (simp only: isequalthan_0_0)
    have "bs' ! 0 = bs ! 0"
      unfolding r using len1 hd1 by (simp add: nth_ShrinkOrExpandBreaks)
    moreover have "length bs' = n' + 1"
      unfolding r using len1 by (simp add: length_ShrinkOrExpandBreaks)
    ultimately show ?thesis using n' r bs1 z by blast
  qed
qed

text \<open>Removing the last break: the expanded breaks end exactly on the upper bound.\<close>

lemma balance_remove_exact:
  assumes "length bs = n + 1" and "n - 1 \<noteq> 0"
  shows "ShrinkOrExpandBreaks (butlast bs) (- ((bs ! (n - 1) - snd rg) / real (n - 1))) ! (n - 1)
           - snd rg = 0"
proof -
  from assms have "n - 1 < length (butlast bs)" by simp
  then have "ShrinkOrExpandBreaks (butlast bs) (- ((bs ! (n - 1) - snd rg) / real (n - 1))) ! (n - 1)
          = butlast bs ! (n - 1) + real (n - 1) * (- ((bs ! (n - 1) - snd rg) / real (n - 1)))"
    by (rule nth_ShrinkOrExpandBreaks)
  also have "butlast bs ! (n - 1) = bs ! (n - 1)"
    using assms by (simp add: nth_butlast)
  finally show ?thesis using assms(2) by simp
qed

lemma balance_remove_or_add_form:
  assumes "balance_remove_or_add rg w n bs du = Some (Inr (c, bs'))"
    and "length bs = n + 1" and "du = bs ! n - snd rg"
  shows "((\<exists>n' s. n \<le> n'
             \<and> bs' = ShrinkOrExpandBreaks (bs @ map (\<lambda>j. fst rg + real j * w) [n + 1..<n' + 1]) s)
          \<or> (2 \<le> n \<and> (\<exists>s. bs' = ShrinkOrExpandBreaks (butlast bs) s)))
         \<and> bs' \<noteq> [] \<and> bs' ! 0 = bs ! 0
         \<and> isequalthan 1 (bs' ! (length bs' - 1) - snd rg) 0"
proof -
  let ?dub = "bs ! (n - 1) - snd rg"
  let ?remove = "?dub < 0 \<and> du > 0 \<and> \<bar>?dub\<bar> < (8 / 10) * \<bar>du\<bar>"
  let ?bs2 = "ShrinkOrExpandBreaks (butlast bs) (- (?dub / real (n - 1)))"
  show ?thesis
  proof (cases ?remove)
    case False
    then have "balance_remove_or_add rg w n bs du = balance_add_or_shrink rg w n bs du"
      by (simp only: balance_remove_or_add_def Let_def if_False)
    with assms(1) have "balance_add_or_shrink rg w n bs du = Some (Inr (c, bs'))"
      by simp
    from balance_add_or_shrink_form [OF this assms(2,3)]
    obtain n' s where n': "n \<le> n'"
      and r: "bs' = ShrinkOrExpandBreaks (bs @ map (\<lambda>j. fst rg + real j * w) [n + 1..<n' + 1]) s"
      and len: "length bs' = n' + 1" and hd: "bs' ! 0 = bs ! 0"
      and z: "isequalthan 1 (bs' ! n' - snd rg) 0"
      by blast
    from len have ne: "bs' \<noteq> []" and l: "length bs' - 1 = n'" by auto
    from n' r have "\<exists>n' s. n \<le> n'
             \<and> bs' = ShrinkOrExpandBreaks (bs @ map (\<lambda>j. fst rg + real j * w) [n + 1..<n' + 1]) s"
      by blast
    with ne hd z show ?thesis unfolding l by (intro conjI disjI1)
  next
    case True
    then have unf: "balance_remove_or_add rg w n bs du =
      (if n - 1 = 0 then Some (Inl NonFinite)
       else if isequalthan 1 (?bs2 ! (n - 1) - snd rg) 0 then Some (Inr (True, ?bs2))
       else balance_add_or_shrink rg w (n - 1) ?bs2 (?bs2 ! (n - 1) - snd rg))"
      by (simp only: balance_remove_or_add_def Let_def simp_thms if_True)
    have nz: "n - 1 \<noteq> 0"
    proof
      assume "n - 1 = 0"
      with unf have "balance_remove_or_add rg w n bs du = Some (Inl NonFinite)"
        by (simp only: simp_thms if_True)
      with assms(1) show False by simp
    qed
    from balance_remove_exact [OF assms(2) nz, of rg]
    have z: "?bs2 ! (n - 1) - snd rg = 0" .
    then have z': "isequalthan 1 (?bs2 ! (n - 1) - snd rg) 0"
      by (simp only: isequalthan_0_0)
    from unf nz z' have "balance_remove_or_add rg w n bs du = Some (Inr (True, ?bs2))"
      by (simp only: simp_thms if_True if_False)
    with assms(1) have r: "bs' = ?bs2" by simp
    have len: "length bs' = n"
      unfolding r using assms(2) by (simp add: length_ShrinkOrExpandBreaks)
    have "0 < length (butlast bs)" using assms(2) nz by simp
    then have "?bs2 ! 0 = butlast bs ! 0 + real 0 * (- (?dub / real (n - 1)))"
      by (rule nth_ShrinkOrExpandBreaks)
    also have "\<dots> = bs ! 0" using assms(2) nz by (simp add: nth_butlast)
    finally have hd: "bs' ! 0 = bs ! 0" unfolding r .
    have last: "isequalthan 1 (bs' ! (length bs' - 1) - snd rg) 0"
      unfolding len unfolding r by (rule z')
    have two: "2 \<le> n" using nz by simp
    have ne: "bs' \<noteq> []" using len nz by auto
    from r have "\<exists>s. bs' = ShrinkOrExpandBreaks (butlast bs) s" by blast
    with two ne hd last show ?thesis by (intro conjI disjI2)
  qed
qed



lemma BalanceBreaksWithRange_unfold:
  assumes "CheckBreaksAreEquidistant bs = Inr True"
  shows "BalanceBreaksWithRange bs rg =
     (if isequalthan 1 (bs ! 0 - fst rg) 0 \<and> isequalthan 1 (bs ! (length bs - 1) - snd rg) 0
      then Some (Inr (False, bs))
      else if isequalthan 1
                ((if \<not> isequalthan 1 (bs ! 0 - fst rg) 0 then ShiftBreaks bs (- (bs ! 0 - fst rg)) else bs)
                   ! (length bs - 1) - snd rg) 0
      then Some (Inr (True,
             if \<not> isequalthan 1 (bs ! 0 - fst rg) 0 then ShiftBreaks bs (- (bs ! 0 - fst rg)) else bs))
      else balance_remove_or_add rg (bs ! 1 - bs ! 0) (length bs - 1)
             (if \<not> isequalthan 1 (bs ! 0 - fst rg) 0 then ShiftBreaks bs (- (bs ! 0 - fst rg)) else bs)
             ((if \<not> isequalthan 1 (bs ! 0 - fst rg) 0 then ShiftBreaks bs (- (bs ! 0 - fst rg)) else bs)
                ! (length bs - 1) - snd rg))"
  by (simp only: BalanceBreaksWithRange_def assms Let_def sum.simps bool.simps)

text \<open>Breaks whose ends are on the range within one epsilon are left as they are.\<close>

lemma BalanceBreaksWithRange_anchored:
  assumes "CheckBreaksAreEquidistant bs = Inr True"
    and "isequalthan 1 (bs ! 0 - fst rg) 0"
    and "isequalthan 1 (bs ! (length bs - 1) - snd rg) 0"
  shows "BalanceBreaksWithRange bs rg = Some (Inr (False, bs))"
  unfolding BalanceBreaksWithRange_unfold [OF assms(1)] using assms(2,3) by (simp only: simp_thms if_True)

text \<open>What a first balancing returns: breaks with both ends on the range.\<close>

lemma BalanceBreaksWithRange_form:
  assumes "BalanceBreaksWithRange bs rg = Some (Inr (c, bs'))"
  shows "CheckBreaksAreEquidistant bs = Inr True
         \<and> isequalthan 1 (bs' ! 0 - fst rg) 0
         \<and> isequalthan 1 (bs' ! (length bs' - 1) - snd rg) 0
         \<and> (\<exists>bs1. (bs1 = bs \<or> bs1 = ShiftBreaks bs (- (bs ! 0 - fst rg)))
               \<and> isequalthan 1 (bs1 ! 0 - fst rg) 0
               \<and> (bs' = bs1
                   \<or> (\<exists>n' s. bs' = ShrinkOrExpandBreaks
                          (bs1 @ map (\<lambda>j. fst rg + real j * (bs ! 1 - bs ! 0))
                                   [length bs - 1 + 1..<n' + 1]) s)
                   \<or> (2 \<le> length bs - 1 \<and> (\<exists>s. bs' = ShrinkOrExpandBreaks (butlast bs1) s))))"
proof -
  let ?n = "length bs - 1"
  let ?w = "bs ! 1 - bs ! 0"
  let ?dl = "bs ! 0 - fst rg"
  from assms have chk: "CheckBreaksAreEquidistant bs = Inr True"
    by (auto simp: BalanceBreaksWithRange_def split: sum.splits bool.splits)
  then have len: "2 \<le> length bs"
    by (simp add: CheckBreaksAreEquidistant_iff)
  show ?thesis
  proof (cases "isequalthan 1 ?dl 0 \<and> isequalthan 1 (bs ! ?n - snd rg) 0")
    case True
    then have "BalanceBreaksWithRange bs rg = Some (Inr (False, bs))"
      using chk by (intro BalanceBreaksWithRange_anchored) simp_all
    with assms have "bs' = bs" by simp
    with True chk show ?thesis by blast
  next
    case False
    define bs1 where "bs1 = (if \<not> isequalthan 1 ?dl 0 then ShiftBreaks bs (- ?dl) else bs)"
    have len1: "length bs1 = ?n + 1"
      using len by (auto simp: bs1_def length_ShiftBreaks)
    from len have pos: "0 < length bs" by linarith
    have front: "isequalthan 1 (bs1 ! 0 - fst rg) 0"
    proof (cases "isequalthan 1 ?dl 0")
      case True
      then show ?thesis by (simp add: bs1_def)
    next
      case False
      then have "bs1 ! 0 - fst rg = 0"
        by (simp add: bs1_def nth_ShiftBreaks [OF pos])
      then show ?thesis by (simp only: isequalthan_0_0)
    qed
    have which: "bs1 = bs \<or> bs1 = ShiftBreaks bs (- ?dl)"
      by (simp add: bs1_def)
    from assms False
    have rest: "(if isequalthan 1 (bs1 ! ?n - snd rg) 0 then Some (Inr (True, bs1))
                 else balance_remove_or_add rg ?w ?n bs1 (bs1 ! ?n - snd rg)) = Some (Inr (c, bs'))"
      unfolding bs1_def BalanceBreaksWithRange_unfold [OF chk] by (simp only: simp_thms if_False)
    show ?thesis
    proof (cases "isequalthan 1 (bs1 ! ?n - snd rg) 0")
      case True
      with rest have eq: "bs' = bs1" by simp
      have "length bs' - 1 = ?n" using len1 eq by simp
      with True front which chk eq show ?thesis by metis
    next
      case nz: False
      with rest have "balance_remove_or_add rg ?w ?n bs1 (bs1 ! ?n - snd rg) = Some (Inr (c, bs'))"
        by simp
      from balance_remove_or_add_form [OF this len1 refl]
      have form: "(\<exists>n' s. ?n \<le> n'
             \<and> bs' = ShrinkOrExpandBreaks (bs1 @ map (\<lambda>j. fst rg + real j * ?w) [?n + 1..<n' + 1]) s)
          \<or> (2 \<le> ?n \<and> (\<exists>s. bs' = ShrinkOrExpandBreaks (butlast bs1) s))"
        and ne: "bs' \<noteq> []" and hd: "bs' ! 0 = bs1 ! 0"
        and z: "isequalthan 1 (bs' ! (length bs' - 1) - snd rg) 0"
        by blast+
      from form have form': "bs' = bs1
          \<or> (\<exists>n' s. bs' = ShrinkOrExpandBreaks (bs1 @ map (\<lambda>j. fst rg + real j * ?w) [?n + 1..<n' + 1]) s)
          \<or> (2 \<le> ?n \<and> (\<exists>s. bs' = ShrinkOrExpandBreaks (butlast bs1) s))"
        by blast
      from front hd have "isequalthan 1 (bs' ! 0 - fst rg) 0" by simp
      with chk z which front form' show ?thesis by blast
    qed
  qed
qed






subsection \<open>Length consistency\<close>

lemma BalanceBreaksWithRange_nonempty:
  assumes "BalanceBreaksWithRange bs rg = Some (Inr (c, bs'))"
  shows "bs' \<noteq> []"
proof -
  from BalanceBreaksWithRange_form [OF assms] obtain bs1
    where chk: "CheckBreaksAreEquidistant bs = Inr True"
      and bs1: "bs1 = bs \<or> bs1 = ShiftBreaks bs (- (bs ! 0 - fst rg))"
      and form: "bs' = bs1
                 \<or> (\<exists>n' s. bs' = ShrinkOrExpandBreaks
                        (bs1 @ map (\<lambda>j. fst rg + real j * (bs ! 1 - bs ! 0)) [length bs - 1 + 1..<n' + 1]) s)
                 \<or> (2 \<le> length bs - 1 \<and> (\<exists>s. bs' = ShrinkOrExpandBreaks (butlast bs1) s))"
    by blast
  from chk have len: "2 \<le> length bs" by (simp add: CheckBreaksAreEquidistant_iff)
  from bs1 have len1: "length bs1 = length bs" by (auto simp: length_ShiftBreaks)
  from form consider "bs' = bs1"
    | n' s where "bs' = ShrinkOrExpandBreaks
                        (bs1 @ map (\<lambda>j. fst rg + real j * (bs ! 1 - bs ! 0)) [length bs - 1 + 1..<n' + 1]) s"
    | s where "2 \<le> length bs - 1" "bs' = ShrinkOrExpandBreaks (butlast bs1) s"
    by blast
  then have "0 < length bs'"
  proof cases
    case 1
    with len len1 show ?thesis by auto
  next
    case 2
    have "length bs' \<ge> length bs1"
      unfolding 2 length_ShrinkOrExpandBreaks by (simp only: length_append le_add1)
    with len len1 show ?thesis by linarith
  next
    case 3
    have "length bs' = length bs1 - 1"
      unfolding 3(2) length_ShrinkOrExpandBreaks by simp
    with 3(1) len1 show ?thesis by linarith
  qed
  then show ?thesis by simp
qed

lemma ScottMethod_nonempty:
  assumes "ScottMethod h data rang = Some (Inr h')"
  shows "breaks h' \<noteq> []"
proof -
  from assms show ?thesis
    by (auto simp: ScottMethod_def Let_def split: sum.splits if_splits option.splits
        dest: BalanceBreaksWithRange_nonempty)
qed

lemma bins_reset_fill_consistent:
  assumes "bins_reset_fill h data = Inr h'" and "breaks h \<noteq> []"
  shows "length_consistent h'"
proof -
  let ?h0 = "ResetCounts (h\<lparr>bins := length (breaks h) - 1\<rparr>)"
  from assms(1) have "FillCounts ?h0 data = Inr h'"
    by (auto simp: bins_reset_fill_def split: sum.splits)
  from FillCounts_frame [OF this] assms(2) show ?thesis
    by (simp add: length_consistent_def ResetCounts_def)
qed

lemma Histo_data_breaks_consistent:
  assumes "Histo_data_breaks data input_breaks = Inr h"
  shows "length_consistent h"
proof -
  let ?h0 = "Histo_default
               \<lparr>range_lu := (input_breaks ! 0, input_breaks ! (length input_breaks - 1)),
                breaks := input_breaks\<rparr> :: PRECI_INTEGER Histo"
  from assms have ne: "input_breaks \<noteq> []" and "bins_reset_fill ?h0 data = Inr h"
    by (auto simp: Histo_data_breaks_def CheckIfMonotonicallyIncreasing_def
        split: sum.splits bool.splits list.splits)
  from bins_reset_fill_consistent [OF this(2)] ne show ?thesis by simp
qed

lemma CalculateBreaks_consistent:
  assumes "CalculateBreaks h0 data rang method = Some (Inr h1)"
    and "bins_reset_fill h1 data = Inr h"
  shows "length_consistent h"
proof -
  from assms(1) have "ScottMethod h0 data rang = Some (Inr h1)"
    by (cases "method") simp
  from bins_reset_fill_consistent [OF assms(2) ScottMethod_nonempty [OF this]]
  show ?thesis .
qed

lemma Histo_data_consistent:
  assumes "Histo_data data method = Some (Inr h)"
  shows "length_consistent h"
proof -
  from assms obtain h0 rang h1 where "CalculateBreaks h0 data rang method = Some (Inr h1)"
    and "bins_reset_fill h1 data = Inr h"
    by (auto simp: Histo_data_def split: list.splits option.splits sum.splits)
  then show ?thesis by (rule CalculateBreaks_consistent)
qed

lemma Histo_data_range_consistent:
  assumes "Histo_data_range data input_range method = Some (Inr h)"
  shows "length_consistent h"
proof -
  from assms obtain h0 h1 where "CalculateBreaks h0 data input_range method = Some (Inr h1)"
    and "bins_reset_fill h1 data = Inr h"
    by (auto simp: Histo_data_range_def split: option.splits sum.splits)
  then show ?thesis by (rule CalculateBreaks_consistent)
qed

lemma mutators_consistent:
  assumes "length_consistent h"
  shows "length_consistent (ResetCounts h)"
    and "FillCounts h data = Inr h' \<Longrightarrow> length_consistent h'"
    and "Increase h index = Inr h' \<Longrightarrow> length_consistent h'"
    and "Decrease h index = Inr h' \<Longrightarrow> length_consistent h'"
    and "SetCount h index v = Inr h' \<Longrightarrow> length_consistent h'"
    and "NormalizeByArea h = Inr hn \<Longrightarrow> length_consistent hn"
proof -
  show "length_consistent (ResetCounts h)"
    using assms by (simp add: length_consistent_def ResetCounts_def)
  show "length_consistent h'" if "FillCounts h data = Inr h'"
    using FillCounts_frame [OF that] assms by (simp add: length_consistent_def)
  show "length_consistent h'" if "Increase h index = Inr h'"
    using that assms by (auto simp: Increase_def length_consistent_def split: if_splits)
  show "length_consistent h'" if "Decrease h index = Inr h'"
    using that assms by (auto simp: Decrease_def length_consistent_def split: if_splits)
  show "length_consistent h'" if "SetCount h index v = Inr h'"
    using that assms by (auto simp: SetCount_def length_consistent_def split: if_splits)
  show "length_consistent hn" if "NormalizeByArea h = Inr hn"
    using NormalizeByArea_Inr(1,2) [OF that] assms
    by (simp add: length_consistent_def Histo_default_def)
qed

lemma ScottMethod_data_eight:
  assumes "range_lu h0 = (- 3, 3)"
  shows "ScottMethod h0 data_eight (- 3, 3) = Some (Inr (h0\<lparr>breaks := [- 3, 0, 3], bins := 2\<rparr>))"
proof -
  have var: "variance_welford data_eight = Inr 4"
    by code_simp
  have n: "real (length data_eight) = 2 ^ 3"
    by (simp add: data_eight_def)
  have cbrt: "root 3 (real (length data_eight)) = 2"
    unfolding n by (rule real_root_power_cancel) simp_all
  have sq: "sqrt 4 = 2"
    using real_sqrt_abs [of 2] by simp
  have bal: "BalanceBreaksWithRange [- 3, 1 / 2, 4] (- 3, 3) = Some (Inr (True, [- 3, 0, 3]))"
    by code_simp
  have brk: "map (\<lambda>i. (- 3) + real i * (7 / 2)) [0..<2 + 1] = [- 3, 1 / 2, 4]"
    by (simp add: upt_rec)
  show ?thesis
    by (simp add: ScottMethod_def var cbrt sq to_unsigned_long_def assms bal upt_rec)
qed

text \<open>The histograms used as examples are built by the constructors.\<close>

lemma example_histograms_built:
  "Histo_data_breaks [1, 1, 2, 3, 19] [1, 2, 15, 20] = Inr histo_withBreaks"
  "Histo_data_breaks [1, 3, 5] [1, 5] = Inr histo_DoubleScott"
  "Histo_data_breaks [1, 3] [0, 2, 4] = Inr histo_even"
  by code_simp+

text \<open>
  C8. Every histogram that one of the three constructors builds is length consistent
  (\<open>breaks.length = bins + 1\<close> and \<open>counts.length = bins\<close>), and from a length-consistent
  histogram \<open>ResetCounts\<close>, a successful \<open>FillCounts\<close>, \<open>Increase\<close>, \<open>Decrease\<close> or \<open>SetCount\<close>, and
  \<open>NormalizeByArea\<close> give a length-consistent histogram.
\<close>

theorem length_consistent_invariant:
  "(Histo_data data method = Some (Inr h) \<longrightarrow> length_consistent h)
   \<and> (Histo_data_range data input_range method = Some (Inr h) \<longrightarrow> length_consistent h)
   \<and> (Histo_data_breaks data input_breaks = Inr h \<longrightarrow> length_consistent h)
   \<and> (length_consistent h \<longrightarrow>
        length_consistent (ResetCounts h)
        \<and> (FillCounts h data' = Inr h' \<longrightarrow> length_consistent h')
        \<and> (Increase h index = Inr h' \<longrightarrow> length_consistent h')
        \<and> (Decrease h index = Inr h' \<longrightarrow> length_consistent h')
        \<and> (SetCount h index v = Inr h' \<longrightarrow> length_consistent h')
        \<and> (NormalizeByArea h = Inr hn \<longrightarrow> length_consistent hn))"
  by (intro conjI impI)
    (erule Histo_data_consistent Histo_data_range_consistent Histo_data_breaks_consistent
       mutators_consistent(1) | erule (1) mutators_consistent(2-6))+

theorem length_consistent_invariant_witness:
  "Histo_data data_eight Scott = Some (Inr histo_eight)
   \<and> Histo_data_range data_eight (- 3, 3) Scott = Some (Inr histo_eight)
   \<and> Histo_data_breaks data_eight [- 3, 0, 3] = Inr histo_eight
   \<and> length_consistent histo_eight
   \<and> length_consistent (ResetCounts histo_eight)
   \<and> FillCounts histo_eight [0] = Inr (histo_eight\<lparr>counts := [3, 6]\<rparr>)
   \<and> Increase histo_eight 1 = Inr (histo_eight\<lparr>counts := [3, 6]\<rparr>)
   \<and> length_consistent (histo_eight\<lparr>counts := [3, 6]\<rparr>)
   \<and> Decrease histo_eight 1 = Inr (histo_eight\<lparr>counts := [3, 4]\<rparr>)
   \<and> SetCount histo_eight 1 4 = Inr (histo_eight\<lparr>counts := [3, 4]\<rparr>)
   \<and> length_consistent (histo_eight\<lparr>counts := [3, 4]\<rparr>)
   \<and> NormalizeByArea histo_eight
       = Inr \<lparr>range_lu = (0, 0), breaks = [- 3, 0, 3], bins = 2, counts = [1 / 8, 5 / 24], name = []\<rparr>
   \<and> length_consistent
        (\<lparr>range_lu = (0, 0), breaks = [- 3, 0, 3], bins = 2, counts = [1 / 8, 5 / 24], name = []\<rparr>
           :: PRECI Histo)"
proof -
  have fill: "bins_reset_fill (Histo_default\<lparr>range_lu := (- 3, 3), breaks := [- 3, 0, 3], bins := 2\<rparr>)
                data_eight = Inr histo_eight"
    by code_simp
  have mm: "fold min [3, - 2, 2, - 1, 1, 0, 0] (- 3 :: real) = - 3"
    "fold max [3, - 2, 2, - 1, 1, 0, 0] (- 3 :: real) = 3"
    by simp_all
  have c1: "Histo_data data_eight Scott = Some (Inr histo_eight)"
    unfolding Histo_data_def data_eight_def list.case mm CalculateBreaks.simps
    unfolding data_eight_def [symmetric]
    by (simp add: ScottMethod_data_eight fill)
  have c2: "Histo_data_range data_eight (- 3, 3) Scott = Some (Inr histo_eight)"
    by (simp add: Histo_data_range_def ScottMethod_data_eight fill)
  have c3: "Histo_data_breaks data_eight [- 3, 0, 3] = Inr histo_eight"
    by code_simp
  have f: "FillCounts histo_eight [0] = Inr (histo_eight\<lparr>counts := [3, 6]\<rparr>)"
    by code_simp
  have i: "Increase histo_eight 1 = Inr (histo_eight\<lparr>counts := [3, 6]\<rparr>)"
    by code_simp
  have d: "Decrease histo_eight 1 = Inr (histo_eight\<lparr>counts := [3, 4]\<rparr>)"
    by code_simp
  have s: "SetCount histo_eight 1 4 = Inr (histo_eight\<lparr>counts := [3, 4]\<rparr>)"
    by code_simp
  have n: "NormalizeByArea histo_eight
       = Inr \<lparr>range_lu = (0, 0), breaks = [- 3, 0, 3], bins = 2, counts = [1 / 8, 5 / 24], name = []\<rparr>"
    by code_simp
  note t1 = length_consistent_invariant
    [of data_eight Scott histo_eight "(- 3, 3)" "[- 3, 0, 3]" "[0]" "histo_eight\<lparr>counts := [3, 6]\<rparr>" 1 4
      "\<lparr>range_lu = (0, 0), breaks = [- 3, 0, 3], bins = 2, counts = [1 / 8, 5 / 24], name = []\<rparr>"]
  note t2 = length_consistent_invariant
    [of data_eight Scott histo_eight "(- 3, 3)" "[- 3, 0, 3]" "[0]" "histo_eight\<lparr>counts := [3, 4]\<rparr>" 1 4
      "\<lparr>range_lu = (0, 0), breaks = [- 3, 0, 3], bins = 2, counts = [1 / 8, 5 / 24], name = []\<rparr>"]
  from t1 c1 have h: "length_consistent histo_eight" by (simp only: simp_thms)
  from t1 h f n have a: "length_consistent (ResetCounts histo_eight)"
    "length_consistent (histo_eight\<lparr>counts := [3, 6]\<rparr>)"
    "length_consistent
        (\<lparr>range_lu = (0, 0), breaks = [- 3, 0, 3], bins = 2, counts = [1 / 8, 5 / 24], name = []\<rparr>
           :: PRECI Histo)"
    by (simp_all only: simp_thms)
  from t2 h d have b: "length_consistent (histo_eight\<lparr>counts := [3, 4]\<rparr>)"
    by (simp only: simp_thms)
  from c1 c2 c3 h a b f i d s n show ?thesis by (intro conjI)
qed

end
